theory Spec2Isabelle
  imports Complex_Main "HOL-Library.Sublist" "HOL-Library.Multiset"
begin

section \<open>The links table\<close>

text \<open>
  TinyLink (\<^verbatim>\<open>server.js\<close>) is an Express application over one PostgreSQL table,
  \<^verbatim>\<open>links\<close>. A row of the table is a record, with the columns that the statements of
  \<^verbatim>\<open>server.js\<close> name; the table is the list of its rows. Times are points of a clock
  (\<^verbatim>\<open>NOW()\<close>), strings are lists of characters.
\<close>

type_synonym timestamp = nat

record link =
  code :: string
  target_url :: string
  total_clicks :: int
  last_clicked :: "timestamp option"
  created_at :: timestamp

type_synonym store = "link list"

text \<open>The columns \<^verbatim>\<open>code, target_url, total_clicks, last_clicked\<close> of a row, as the
  list queries and the \<^verbatim>\<open>RETURNING\<close> clause select them.\<close>

record link_summary =
  s_code :: string
  s_target_url :: string
  s_total_clicks :: int
  s_last_clicked :: "timestamp option"

definition summary :: "link \<Rightarrow> link_summary" where
  "summary r = \<lparr>s_code = code r, s_target_url = target_url r,
                 s_total_clicks = total_clicks r, s_last_clicked = last_clicked r\<rparr>"

text \<open>An error thrown by \<^verbatim>\<open>db.query\<close>; the handlers read its \<^verbatim>\<open>code\<close> field (the
  SQLSTATE).\<close>

datatype db_error = Db_error (err_code: string)

text \<open>
  Modelled from the spec: the declaration of the table \<^verbatim>\<open>links\<close> (in the module
  \<^verbatim>\<open>./db\<close> or the schema behind it) is not part of \<^verbatim>\<open>server.js\<close>. By the spec's Link
  entity, \<^verbatim>\<open>code\<close> is the primary key: no two rows of a table have the same code.
\<close>

definition store_inv :: "store \<Rightarrow> bool" where
  "store_inv s = distinct (map code s)"

text \<open>
  Modelled from the spec: what the table's declaration adds to the statement
  \<^verbatim>\<open>INSERT INTO links (code, target_url) VALUES ($1, $2) RETURNING ...\<close> of
  \<^verbatim>\<open>server.js\<close>. By the spec's Link Store, the new row gets \<^verbatim>\<open>total_clicks = 0\<close>,
  \<^verbatim>\<open>last_clicked = NULL\<close> and \<^verbatim>\<open>created_at = now\<close>, and the insert of a code that a row
  already has fails with the unique-constraint violation, SQLSTATE 23505.

  The other statements below are as \<^verbatim>\<open>server.js\<close> sends them. A statement fails in no
  other way here: a failure of the database or of the connection, which every handler
  answers with status 500, is outside this model.
\<close>

definition insert_link :: "timestamp \<Rightarrow> string \<Rightarrow> string \<Rightarrow> store \<Rightarrow> db_error + (link \<times> store)" where
  "insert_link now c u s =
     (if list_ex (\<lambda>r. code r = c) s then Inl (Db_error ''23505'')
      else (let r = \<lparr>code = c, target_url = u, total_clicks = 0,
                      last_clicked = None, created_at = now\<rparr>
            in Inr (r, s @ [r])))"

text \<open>\<^verbatim>\<open>SELECT ... FROM links WHERE code = $1\<close>: the rows of the result.\<close>

definition select_by_code :: "string \<Rightarrow> store \<Rightarrow> link list" where
  "select_by_code c s = filter (\<lambda>r. code r = c) s"

text \<open>\<^verbatim>\<open>DELETE FROM links WHERE code = $1\<close>: the number of rows deleted and the table
  afterwards.\<close>

definition delete_by_code :: "string \<Rightarrow> store \<Rightarrow> nat \<times> store" where
  "delete_by_code c s = (length (filter (\<lambda>r. code r = c) s), filter (\<lambda>r. code r \<noteq> c) s)"

text \<open>\<^verbatim>\<open>UPDATE links SET total_clicks = total_clicks + 1, last_clicked = NOW()
  WHERE code = $1\<close>\<close>

definition update_click :: "timestamp \<Rightarrow> string \<Rightarrow> store \<Rightarrow> store" where
  "update_click now c s =
     map (\<lambda>r. if code r = c
              then r\<lparr>total_clicks := total_clicks r + 1, last_clicked := Some now\<rparr>
              else r) s"

text \<open>\<^verbatim>\<open>ORDER BY created_at DESC\<close>. SQL leaves the order of rows with equal
  \<^verbatim>\<open>created_at\<close> open; the model fixes one.\<close>

definition order_by_created_at_desc :: "link list \<Rightarrow> link list" where
  "order_by_created_at_desc rows = rev (sort_key created_at rows)"

section \<open>Responses\<close>

datatype json =
    Error_json string
  | Link_json link_summary
  | Link_stats_json link
  | Links_json "link_summary list"

text \<open>What a handler sends: \<^verbatim>\<open>res.status(n).json(v)\<close>, \<^verbatim>\<open>res.status(n).send(text)\<close>,
  \<^verbatim>\<open>res.status(n).end()\<close>, \<^verbatim>\<open>res.redirect(n, url)\<close>, and the two rendered pages
  (\<^verbatim>\<open>links\<close>, \<^verbatim>\<open>search\<close>, \<^verbatim>\<open>baseUrl\<close>, and \<^verbatim>\<open>link\<close>, \<^verbatim>\<open>baseUrl\<close>).\<close>

datatype response =
    Json nat json
  | Send nat string
  | End nat
  | Redirect nat string
  | Render_dashboard "link_summary list" string string
  | Render_stats link string

fun status :: "response \<Rightarrow> nat" where
  "status (Json n _) = n"
| "status (Send n _) = n"
| "status (End n) = n"
| "status (Redirect n _) = n"
| "status (Render_dashboard _ _ _) = 200"
| "status (Render_stats _ _) = 200"


section \<open>Helpers\<close>

subsection \<open>The URL constructor of the runtime\<close>

text \<open>
  \<^verbatim>\<open>isValidUrl\<close> calls \<^verbatim>\<open>new URL(str)\<close>, which belongs to the JavaScript runtime and
  runs the basic URL parser of the WHATWG URL Standard without a base URL. The model
  follows that parser through the states that read the scheme (scheme start state,
  scheme state, no scheme state) and through the states of a URL without authority
  (opaque path state and path state, with query and fragment, none of which fails).
  The states that read an authority, and with them host parsing, are the parameter
  \<open>ap\<close>: it is given the scheme and the input after the colon.
\<close>

datatype js_error = TypeError

record url =
  url_scheme :: string
  url_host :: "string option"

type_synonym authority_parser = "string \<Rightarrow> string \<Rightarrow> js_error + url"

definition c0_control_or_space :: "char \<Rightarrow> bool" where
  "c0_control_or_space c = ((of_char c :: nat) \<le> 32)"

definition ascii_tab_or_newline :: "char \<Rightarrow> bool" where
  "ascii_tab_or_newline c = ((of_char c :: nat) \<in> {9, 10, 13})"

definition ascii_upper_alpha :: "char \<Rightarrow> bool" where
  "ascii_upper_alpha c = (65 \<le> (of_char c :: nat) \<and> (of_char c :: nat) \<le> 90)"

definition ascii_lower_alpha :: "char \<Rightarrow> bool" where
  "ascii_lower_alpha c = (97 \<le> (of_char c :: nat) \<and> (of_char c :: nat) \<le> 122)"

definition ascii_digit :: "char \<Rightarrow> bool" where
  "ascii_digit c = (48 \<le> (of_char c :: nat) \<and> (of_char c :: nat) \<le> 57)"

definition ascii_alpha :: "char \<Rightarrow> bool" where
  "ascii_alpha c = (ascii_upper_alpha c \<or> ascii_lower_alpha c)"

definition ascii_alphanumeric :: "char \<Rightarrow> bool" where
  "ascii_alphanumeric c = (ascii_digit c \<or> ascii_alpha c)"

definition ascii_lowercase :: "char \<Rightarrow> char" where
  "ascii_lowercase c = (if ascii_upper_alpha c then char_of ((of_char c :: nat) + 32) else c)"

definition special_scheme :: "string \<Rightarrow> bool" where
  "special_scheme sc = (sc \<in> set [''ftp'', ''file'', ''http'', ''https'', ''ws'', ''wss''])"

text \<open>Scheme state: the buffer so far and the input left. The result is the scheme
  and the input after the colon; \<open>None\<close> is the move to the no scheme state, which
  fails, there being no base URL.\<close>

fun scheme_state :: "string \<Rightarrow> string \<Rightarrow> (string \<times> string) option" where
  "scheme_state buffer [] = None"
| "scheme_state buffer (c # cs) =
     (if ascii_alphanumeric c \<or> c = CHR ''+'' \<or> c = CHR ''-'' \<or> c = CHR ''.''
      then scheme_state (buffer @ [ascii_lowercase c]) cs
      else if c = CHR '':'' then Some (buffer, cs)
      else None)"

text \<open>Before parsing, leading and trailing C0 controls and spaces are stripped, then
  every tab and newline is removed.\<close>

definition url_input :: "string \<Rightarrow> string" where
  "url_input str =
     filter (\<lambda>c. \<not> ascii_tab_or_newline c)
       (dropWhile c0_control_or_space (rev (dropWhile c0_control_or_space (rev str))))"

text \<open>Scheme start state: a letter opens the scheme; anything else, and the end of the
  input, leads to the no scheme state.\<close>

definition scheme_start_state :: "string \<Rightarrow> (string \<times> string) option" where
  "scheme_start_state input =
     (case input of
        [] \<Rightarrow> None
      | c # cs \<Rightarrow> if ascii_alpha c then scheme_state [ascii_lowercase c] cs else None)"

text \<open>After the scheme: a special scheme goes on to the authority states (\<^verbatim>\<open>file\<close> to
  the file states, which read a host as well); any other scheme does so when two
  slashes follow, and otherwise the URL has a path only and no host.\<close>

definition authority_follows :: "string \<Rightarrow> string \<Rightarrow> bool" where
  "authority_follows sc rest = (special_scheme sc \<or> take 2 rest = ''//'')"

definition new_URL :: "authority_parser \<Rightarrow> string \<Rightarrow> js_error + url" where
  "new_URL ap str =
     (case scheme_start_state (url_input str) of
        None \<Rightarrow> Inl TypeError
      | Some (sc, rest) \<Rightarrow>
          if authority_follows sc rest then ap sc rest
          else Inr \<lparr>url_scheme = sc, url_host = None\<rparr>)"

text \<open>\<^verbatim>\<open>function isValidUrl(str) { try { new URL(str); return true; } catch { return false; } }\<close>\<close>

definition isValidUrl :: "authority_parser \<Rightarrow> string \<Rightarrow> bool" where
  "isValidUrl ap str = (case new_URL ap str of Inl _ \<Rightarrow> False | Inr _ \<Rightarrow> True)"

subsection \<open>Codes\<close>

text \<open>\<^verbatim>\<open>const CODE_REGEX = /^[A-Za-z0-9]{6,8}$/;\<close> and its \<^verbatim>\<open>test\<close>.\<close>

definition CODE_REGEX_test :: "string \<Rightarrow> bool" where
  "CODE_REGEX_test str =
     (6 \<le> length str \<and> length str \<le> 8 \<and> list_all ascii_alphanumeric str)"

definition chars :: string where
  "chars = ''ABCDEFGHIJKLMNOPQRSTUVWXYZabcdefghijklmnopqrstuvwxyz0123456789''"

text \<open>
  Numbers. \<^verbatim>\<open>Math.random()\<close> and the product \<^verbatim>\<open>Math.random() * chars.length\<close> are
  IEEE 754 binary64 values, of which only non-negative ones occur here: \<open>Finite m e\<close>
  is the number \<^verbatim>\<open>m * 2^e\<close>, \<open>Infinity\<close> is the overflow. A binary64 has a
  significand below \<^verbatim>\<open>2^53\<close> and an exponent from -1074 to 971.
\<close>

datatype number = Finite nat int | Infinity

fun binary64 :: "number \<Rightarrow> bool" where
  "binary64 (Finite m e) = (m < 2 ^ 53 \<and> - 1074 \<le> e \<and> e \<le> 971)"
| "binary64 Infinity = True"

text \<open>The number is less than 1, as every result of \<^verbatim>\<open>Math.random()\<close> is.\<close>

fun below_one :: "number \<Rightarrow> bool" where
  "below_one (Finite m e) = (if 0 \<le> e then m = 0 else m < 2 ^ nat (- e))"
| "below_one Infinity = False"

text \<open>The number of binary digits of \<open>n\<close>.\<close>

fun bit_length :: "nat \<Rightarrow> nat" where
  "bit_length n = (if n = 0 then 0 else Suc (bit_length (n div 2)))"

text \<open>\<^verbatim>\<open>M / 2^k\<close> rounded to the nearest integer, a tie to the even one.\<close>

definition round_half_even :: "nat \<Rightarrow> nat \<Rightarrow> nat" where
  "round_half_even M k =
     (let q = M div 2 ^ k; r = M mod 2 ^ k
      in if 2 * r < 2 ^ k then q
         else if 2 ^ k < 2 * r then q + 1
         else if even q then q else q + 1)"

text \<open>The binary64 that an exact result \<^verbatim>\<open>M * 2^e\<close> with \<^verbatim>\<open>-1074 <= e\<close> is rounded
  to (round to nearest, ties to even): the digits of \<open>M\<close> beyond the first 53 are
  rounded away, and a result of \<^verbatim>\<open>2^1024\<close> or more overflows.\<close>

definition round_binary64 :: "nat \<Rightarrow> int \<Rightarrow> number" where
  "round_binary64 M e =
     (let k = bit_length M - 53; M' = round_half_even M k; e' = e + int k
      in if 0 \<le> e' \<and> 2 ^ 1024 \<le> M' * 2 ^ nat e' then Infinity else Finite M' e')"

text \<open>\<^verbatim>\<open>x * chars.length\<close>: the exact product, rounded. \<^verbatim>\<open>chars.length\<close> is the integer
  62, a binary64 itself.\<close>

definition multiply_length :: "number \<Rightarrow> number" where
  "multiply_length x =
     (case x of Infinity \<Rightarrow> Infinity | Finite m e \<Rightarrow> round_binary64 (m * length chars) e)"

text \<open>\<^verbatim>\<open>Math.floor\<close>\<close>

fun Math_floor :: "number \<Rightarrow> number" where
  "Math_floor (Finite m e) = Finite (if 0 \<le> e then m * 2 ^ nat e else m div 2 ^ nat (- e)) 0"
| "Math_floor Infinity = Infinity"

text \<open>The integer that a number is, if it is one.\<close>

fun integer_value :: "number \<Rightarrow> nat option" where
  "integer_value (Finite m e) =
     (if 0 \<le> e then Some (m * 2 ^ nat e)
      else if 2 ^ nat (- e) dvd m then Some (m div 2 ^ nat (- e)) else None)"
| "integer_value Infinity = None"

text \<open>\<^verbatim>\<open>chars[x]\<close>: the character at the index \<open>x\<close>; for anything but an index of the
  string the value is \<^verbatim>\<open>undefined\<close>, which \<^verbatim>\<open>+=\<close> appends as the text \<^verbatim>\<open>undefined\<close>.\<close>

definition chars_at :: "number \<Rightarrow> string" where
  "chars_at x =
     (case integer_value x of
        Some k \<Rightarrow> if k < length chars then [chars ! k] else ''undefined''
      | None \<Rightarrow> ''undefined'')"

text \<open>The loop of \<^verbatim>\<open>generateCode\<close>. \<open>rnd i\<close> is what \<^verbatim>\<open>Math.random()\<close> returns in
  round \<open>i\<close>: a binary64 that the runtime takes from \<open>[0, 1)\<close>.\<close>

function generateCode_loop :: "(nat \<Rightarrow> number) \<Rightarrow> nat \<Rightarrow> nat \<Rightarrow> string \<Rightarrow> string" where
  "generateCode_loop rnd len i out =
     (if i < len
      then generateCode_loop rnd len (i + 1)
             (out @ chars_at (Math_floor (multiply_length (rnd i))))
      else out)"
  by pat_completeness auto
termination
  by (relation "measure (\<lambda>(rnd, len, i, out). len - i)") auto

definition generateCode :: "(nat \<Rightarrow> number) \<Rightarrow> nat \<Rightarrow> string" where
  "generateCode rnd len = generateCode_loop rnd len 0 []"

subsection \<open>ILIKE\<close>

text \<open>
  PostgreSQL's \<^verbatim>\<open>LIKE\<close>: in the pattern \<^verbatim>\<open>%\<close> stands for any sequence of characters,
  \<^verbatim>\<open>_\<close> for any one character, and a backslash takes the next character literally.
  A pattern that ends in a lone backslash is an error in PostgreSQL; the patterns of
  \<^verbatim>\<open>server.js\<close> end in \<^verbatim>\<open>%\<close>. \<^verbatim>\<open>ILIKE\<close> compares without regard to case; the case
  modelled is that of the ASCII letters.
\<close>

fun like :: "string \<Rightarrow> string \<Rightarrow> bool" where
  "like [] str = (str = [])"
| "like (p # ps) str =
     (if p = CHR ''%'' then list_ex (\<lambda>t. like ps t) (suffixes str)
      else if p = CHR ''_'' then (case str of [] \<Rightarrow> False | _ # t \<Rightarrow> like ps t)
      else if p = CHR 0x5C
      then (case ps of
              [] \<Rightarrow> False
            | q # qs \<Rightarrow> (case str of [] \<Rightarrow> False | x # t \<Rightarrow> x = q \<and> like qs t))
      else (case str of [] \<Rightarrow> False | x # t \<Rightarrow> x = p \<and> like ps t))"

definition ilike :: "string \<Rightarrow> string \<Rightarrow> bool" where
  "ilike str pat = like (map ascii_lowercase pat) (map ascii_lowercase str)"

section \<open>Pages\<close>

text \<open>\<^verbatim>\<open>app.get('/')\<close>: \<open>query\<close> is \<^verbatim>\<open>req.query.q\<close>, \<open>None\<close> when the request has
  none; \<^verbatim>\<open>req.query.q || ''\<close> makes it the empty string then.\<close>

definition dashboard :: "string \<Rightarrow> string option \<Rightarrow> store \<Rightarrow> response" where
  "dashboard baseUrl query s =
     (let q = (case query of None \<Rightarrow> [] | Some v \<Rightarrow> v)
      in if q \<noteq> []
         then (let pat = ''%'' @ q @ ''%''
               in Render_dashboard
                    (map summary (order_by_created_at_desc
                       (filter (\<lambda>r. ilike (code r) pat \<or> ilike (target_url r) pat) s)))
                    q baseUrl)
         else Render_dashboard (map summary (order_by_created_at_desc s)) q baseUrl)"

text \<open>\<^verbatim>\<open>app.get('/code/:code')\<close>\<close>

definition statsPage :: "string \<Rightarrow> string \<Rightarrow> store \<Rightarrow> response" where
  "statsPage baseUrl c s =
     (case select_by_code c s of
        [] \<Rightarrow> Send 404 ''Link not found''
      | row # _ \<Rightarrow> Render_stats row baseUrl)"

section \<open>API endpoints\<close>

text \<open>The body of \<^verbatim>\<open>POST /api/links\<close>: \<^verbatim>\<open>url\<close> and \<^verbatim>\<open>code\<close> are strings, or \<open>None\<close>
  when the field is missing or \<^verbatim>\<open>null\<close>.\<close>

record create_body =
  body_url :: "string option"
  body_code :: "string option"

text \<open>A missing field and the empty string are the falsy values here; \<open>str_of\<close>
  reads a field that is there.\<close>

definition truthy :: "string option \<Rightarrow> bool" where
  "truthy v = (case v of None \<Rightarrow> False | Some str \<Rightarrow> str \<noteq> [])"

definition str_of :: "string option \<Rightarrow> string" where
  "str_of v = (case v of None \<Rightarrow> [] | Some str \<Rightarrow> str)"

text \<open>\<^verbatim>\<open>app.post('/api/links')\<close>\<close>

definition createLink ::
  "authority_parser \<Rightarrow> (nat \<Rightarrow> number) \<Rightarrow> timestamp \<Rightarrow> create_body \<Rightarrow> store \<Rightarrow> response \<times> store" where
  "createLink ap rnd now body s =
     (let url = body_url body; code0 = body_code body
      in if \<not> truthy url \<or> \<not> isValidUrl ap (str_of url)
         then (Json 400 (Error_json ''Invalid or missing URL''), s)
         else if truthy code0 \<and> \<not> CODE_REGEX_test (str_of code0)
         then (Json 400 (Error_json ''Custom code must match [A-Za-z0-9]{6,8}''), s)
         else (let code1 = (if \<not> truthy code0 then generateCode rnd 6 else str_of code0)
               in case insert_link now code1 (str_of url) s of
                    Inr (row, s') \<Rightarrow> (Json 201 (Link_json (summary row)), s')
                  | Inl err \<Rightarrow>
                      if err_code err = ''23505''
                      then (Json 409 (Error_json ''Code already exists''), s)
                      else (Json 500 (Error_json ''Internal Server Error''), s)))"

text \<open>\<^verbatim>\<open>app.get('/api/links')\<close>: the handler does not read the query of the request.\<close>

definition listLinks :: "string option \<Rightarrow> store \<Rightarrow> response" where
  "listLinks query s = Json 200 (Links_json (map summary (order_by_created_at_desc s)))"

text \<open>\<^verbatim>\<open>app.get('/api/links/:code')\<close>\<close>

definition getLink :: "string \<Rightarrow> store \<Rightarrow> response" where
  "getLink c s =
     (case select_by_code c s of
        [] \<Rightarrow> Json 404 (Error_json ''Link not found'')
      | row # _ \<Rightarrow> Json 200 (Link_stats_json row))"

text \<open>\<^verbatim>\<open>app.delete('/api/links/:code')\<close>\<close>

definition deleteLink :: "string \<Rightarrow> store \<Rightarrow> response \<times> store" where
  "deleteLink c s =
     (case delete_by_code c s of
        (rowCount, s') \<Rightarrow>
          if rowCount = 0 then (Json 404 (Error_json ''Link not found''), s')
          else (End 204, s'))"

section \<open>The redirect route\<close>

text \<open>\<^verbatim>\<open>app.get('/:code')\<close>: look the code up; without a row answer 404; otherwise
  count the click and redirect to the first row's \<^verbatim>\<open>target_url\<close>.\<close>

definition redirect :: "timestamp \<Rightarrow> string \<Rightarrow> store \<Rightarrow> response \<times> store" where
  "redirect now c s =
     (case map target_url (select_by_code c s) of
        [] \<Rightarrow> (Send 404 ''Not found'', s)
      | targetUrl # _ \<Rightarrow> (Redirect 302 targetUrl, update_click now c s))"

section \<open>Requests\<close>

text \<open>A request, already routed, and a run of the server over a list of requests. Each
  request comes with what the runtime draws from \<^verbatim>\<open>Math.random()\<close> while it is
  handled and with the time of the database.\<close>

datatype request =
    GET_root "string option"
  | GET_code_page string
  | POST_api_links create_body
  | GET_api_links "string option"
  | GET_api_link string
  | DELETE_api_link string
  | GET_code string

fun handle ::
  "authority_parser \<Rightarrow> string \<Rightarrow> (nat \<Rightarrow> number) \<Rightarrow> timestamp \<Rightarrow> request \<Rightarrow> store \<Rightarrow> response \<times> store" where
  "handle ap baseUrl rnd now (GET_root query) s = (dashboard baseUrl query s, s)"
| "handle ap baseUrl rnd now (GET_code_page c) s = (statsPage baseUrl c s, s)"
| "handle ap baseUrl rnd now (POST_api_links body) s = createLink ap rnd now body s"
| "handle ap baseUrl rnd now (GET_api_links query) s = (listLinks query s, s)"
| "handle ap baseUrl rnd now (GET_api_link c) s = (getLink c s, s)"
| "handle ap baseUrl rnd now (DELETE_api_link c) s = deleteLink c s"
| "handle ap baseUrl rnd now (GET_code c) s = redirect now c s"

fun run ::
  "authority_parser \<Rightarrow> string \<Rightarrow> ((nat \<Rightarrow> number) \<times> timestamp \<times> request) list \<Rightarrow> store \<Rightarrow> store" where
  "run ap baseUrl [] s = s"
| "run ap baseUrl ((rnd, now, req) # reqs) s =
     run ap baseUrl reqs (snd (handle ap baseUrl rnd now req s))"

section \<open>Notions of the specification\<close>

text \<open>The characters of a scheme after its first letter (RFC 3986 and the URL
  Standard agree on them).\<close>

definition scheme_char :: "char \<Rightarrow> bool" where
  "scheme_char c = (ascii_alphanumeric c \<or> c = CHR ''+'' \<or> c = CHR ''-'' \<or> c = CHR ''.'')"

text \<open>The specification's reading of \<^verbatim>\<open>validateUrl\<close>: the string parses as an absolute
  URL that has a scheme and an authority, that is, a host.\<close>

definition absolute_with_authority :: "authority_parser \<Rightarrow> string \<Rightarrow> bool" where
  "absolute_with_authority ap str =
     (case new_URL ap str of Inl _ \<Rightarrow> False | Inr u \<Rightarrow> url_host u \<noteq> None)"

text \<open>The specification's filter: \<open>q\<close> occurs in \<open>str\<close> as a substring, case
  disregarded.\<close>

definition contains_ci :: "string \<Rightarrow> string \<Rightarrow> bool" where
  "contains_ci q str = sublist (map ascii_lowercase q) (map ascii_lowercase str)"

text \<open>The characters that \<^verbatim>\<open>LIKE\<close> does not take literally.\<close>

definition like_special :: "char \<Rightarrow> bool" where
  "like_special c = (c = CHR ''%'' \<or> c = CHR ''_'' \<or> c = CHR 0x5C)"

text \<open>A listing of the rows that satisfy \<open>P\<close>: exactly these rows, each once, the
  newest first, reduced to the four columns.\<close>

definition listing :: "(link \<Rightarrow> bool) \<Rightarrow> store \<Rightarrow> link_summary list \<Rightarrow> bool" where
  "listing P s out =
     (\<exists>rows. out = map summary rows \<and> mset rows = mset (filter P s)
        \<and> sorted_wrt (\<lambda>a b. created_at b \<le> created_at a) rows)"

text \<open>In a list of requests: the number of redirects to the code \<open>c\<close>, and whether
  some request deletes \<open>c\<close>.\<close>

definition clicks_to :: "string \<Rightarrow> ((nat \<Rightarrow> number) \<times> timestamp \<times> request) list \<Rightarrow> nat" where
  "clicks_to c reqs = length (filter (\<lambda>(rnd, now, req). req = GET_code c) reqs)"

definition deletes :: "string \<Rightarrow> ((nat \<Rightarrow> number) \<times> timestamp \<times> request) list \<Rightarrow> bool" where
  "deletes c reqs = list_ex (\<lambda>(rnd, now, req). req = DELETE_api_link c) reqs"

section \<open>Example data\<close>

text \<open>Three rows, the last with a code that is not of the required form; a source of
  random numbers that always draws 0 and one that always draws
  \<^verbatim>\<open>1162219258676257 * 2^-52\<close>, whose exact product with 62 lies just below 16 and
  is rounded to 16; and an authority parser for the examples, all of whose URLs have no
  authority: it is never asked.\<close>

definition row_a :: link where
  "row_a = \<lparr>code = ''AAAAAA'', target_url = ''mailto:a@b.c'', total_clicks = 3,
             last_clicked = None, created_at = 5\<rparr>"

definition row_b :: link where
  "row_b = \<lparr>code = ''abc1234'', target_url = ''news:comp.lang.ml'', total_clicks = 0,
             last_clicked = Some 2, created_at = 7\<rparr>"

definition row_c :: link where
  "row_c = \<lparr>code = ''abc'', target_url = ''news:alt.test'', total_clicks = 1,
             last_clicked = Some 4, created_at = 3\<rparr>"

definition row_q :: link where
  "row_q = \<lparr>code = ''QQQQQQ'', target_url = ''news:alt.test'', total_clicks = 0,
             last_clicked = None, created_at = 8\<rparr>"

definition zero_draws :: "nat \<Rightarrow> number" where
  "zero_draws i = Finite 0 0"

definition q_draws :: "nat \<Rightarrow> number" where
  "q_draws i = Finite 1162219258676257 (- 52)"

definition no_authority :: authority_parser where
  "no_authority sc rest = Inl TypeError"

text \<open>A run of five requests: two redirects to \<open>row_b\<close>'s code, between them a
  create with that code, the deletion of \<open>row_a\<close> and a listing.\<close>

definition example_requests :: "((nat \<Rightarrow> number) \<times> timestamp \<times> request) list" where
  "example_requests =
     [(zero_draws, 10, GET_code ''abc1234''),
      (zero_draws, 11, POST_api_links \<lparr>body_url = Some ''news:x'', body_code = Some ''abc1234''\<rparr>),
      (zero_draws, 12, DELETE_api_link ''AAAAAA''),
      (zero_draws, 13, GET_api_links None),
      (zero_draws, 14, GET_code ''abc1234'')]"

section \<open>Properties of the store\<close>

lemma select_by_code_empty: "(select_by_code c s = []) = (c \<notin> code ` set s)"
  by (auto simp: select_by_code_def filter_empty_conv)

lemma select_by_code_unique:
  assumes "store_inv s" "r \<in> set s"
  shows "select_by_code (code r) s = [r]"
  using assms
proof (induction s)
  case Nil
  then show ?case by simp
next
  case (Cons x xs)
  show ?case
  proof (cases "x = r")
    case True
    from Cons.prems have "code r \<notin> code ` set xs"
      by (simp add: store_inv_def True)
    then have "\<forall>y\<in>set xs. code y \<noteq> code r"
      by (metis image_eqI)
    then have "filter (\<lambda>y. code y = code r) xs = []"
      by (simp add: filter_empty_conv)
    then show ?thesis
      by (simp add: select_by_code_def True)
  next
    case False
    with Cons.prems have r: "r \<in> set xs" and inv: "store_inv xs"
      by (simp_all add: store_inv_def)
    from Cons.prems r have "code x \<noteq> code r"
      by (auto simp: store_inv_def)
    with Cons.IH [OF inv r] show ?thesis
      by (simp add: select_by_code_def)
  qed
qed

lemma update_click_codes: "map code (update_click now c s) = map code s"
  by (induction s) (simp_all add: update_click_def)

lemma update_click_other:
  "filter (\<lambda>x. code x \<noteq> c) (update_click now c s) = filter (\<lambda>x. code x \<noteq> c) s"
  by (induction s) (simp_all add: update_click_def)

lemma update_click_mem:
  "r \<in> set s \<Longrightarrow> code r = c \<Longrightarrow>
   r\<lparr>total_clicks := total_clicks r + 1, last_clicked := Some now\<rparr> \<in> set (update_click now c s)"
  by (force simp: update_click_def)

section \<open>Redirects\<close>

text \<open>
  C1: the table holds a row \<open>r\<close> with code \<open>c\<close> (and, \<open>code\<close> being the primary key, no
  other). The redirect route answers 302 with \<open>r\<close>'s \<open>target_url\<close>; afterwards the row
  with code \<open>c\<close> is \<open>r\<close> with \<open>total_clicks\<close> one higher and \<open>last_clicked\<close> set to the
  current time, and the rows of the other codes are as before.
\<close>

theorem redirect_known:
  assumes "store_inv s" and "r \<in> set s" and "code r = c"
  shows "fst (redirect now c s) = Redirect 302 (target_url r)
       \<and> select_by_code c (snd (redirect now c s)) =
           [r\<lparr>total_clicks := total_clicks r + 1, last_clicked := Some now\<rparr>]
       \<and> filter (\<lambda>x. code x \<noteq> c) (snd (redirect now c s)) = filter (\<lambda>x. code x \<noteq> c) s"
proof -
  let ?r' = "r\<lparr>total_clicks := total_clicks r + 1, last_clicked := Some now\<rparr>"
  from assms have sel: "select_by_code c s = [r]"
    using select_by_code_unique by blast
  then have red: "redirect now c s = (Redirect 302 (target_url r), update_click now c s)"
    by (simp add: redirect_def)
  have inv': "store_inv (update_click now c s)"
    using assms(1) by (simp add: store_inv_def update_click_codes)
  have "?r' \<in> set (update_click now c s)"
    using assms(2,3) by (rule update_click_mem)
  from select_by_code_unique [OF inv' this] have "select_by_code c (update_click now c s) = [?r']"
    using assms(3) by simp
  with red show ?thesis
    by (simp add: update_click_other)
qed

theorem redirect_known_witness:
  "store_inv [row_a, row_b] \<and> row_b \<in> set [row_a, row_b] \<and> code row_b = ''abc1234''
   \<and> redirect 9 ''abc1234'' [row_a, row_b] =
       (Redirect 302 ''news:comp.lang.ml'',
        [row_a, row_b\<lparr>total_clicks := 1, last_clicked := Some 9\<rparr>])"
proof -
  have h: "store_inv [row_a, row_b]" "row_b \<in> set [row_a, row_b]" "code row_b = ''abc1234''"
    by (simp_all add: store_inv_def row_a_def row_b_def)
  from redirect_known [OF h, of 9] h show ?thesis
    by (simp add: redirect_def select_by_code_def update_click_def row_a_def row_b_def)
qed


text \<open>
  C4: a redirect to a code that no row has answers 404, redirects nowhere and leaves
  the table as it is.
\<close>

theorem redirect_unknown:
  assumes "c \<notin> code ` set s"
  shows "redirect now c s = (Send 404 ''Not found'', s)"
proof -
  from assms have "select_by_code c s = []"
    by (simp add: select_by_code_empty)
  then show ?thesis
    by (simp add: redirect_def)
qed

theorem redirect_unknown_witness:
  "''zzzzzz'' \<notin> code ` set [row_a, row_b]
   \<and> redirect 9 ''zzzzzz'' [row_a, row_b] = (Send 404 ''Not found'', [row_a, row_b])"
proof -
  have h: "''zzzzzz'' \<notin> code ` set [row_a, row_b]"
    by (simp add: row_a_def row_b_def)
  from redirect_unknown [OF h, of 9] h show ?thesis
    by simp
qed

section \<open>Duplicate codes\<close>

lemma insert_link_present:
  "c \<in> code ` set s \<Longrightarrow> insert_link now c u s = Inl (Db_error ''23505'')"
  by (auto simp: insert_link_def list_ex_iff)

lemma insert_link_absent:
  "c \<notin> code ` set s \<Longrightarrow>
   insert_link now c u s =
     Inr (\<lparr>code = c, target_url = u, total_clicks = 0, last_clicked = None, created_at = now\<rparr>,
          s @ [\<lparr>code = c, target_url = u, total_clicks = 0, last_clicked = None,
                 created_at = now\<rparr>])"
  by (auto simp: insert_link_def list_ex_iff Let_def)

lemma isValidUrl_nonempty: "isValidUrl ap u \<Longrightarrow> u \<noteq> []"
  by (auto simp: isValidUrl_def new_URL_def url_input_def scheme_start_state_def)

text \<open>
  C3: the table holds a row \<open>r\<close> with code \<open>c\<close>. A further create request with the
  explicit code \<open>c\<close> (a code of the required form) and a URL that the validator accepts
  is answered 409, Code already exists; the table is as before, and its one row with
  code \<open>c\<close> is still \<open>r\<close>.
\<close>

theorem createLink_duplicate:
  assumes "store_inv s" and "r \<in> set s" and "code r = c"
    and "CODE_REGEX_test c" and "isValidUrl ap u"
  shows "createLink ap rnd now \<lparr>body_url = Some u, body_code = Some c\<rparr> s =
           (Json 409 (Error_json ''Code already exists''), s)
       \<and> select_by_code c (snd (createLink ap rnd now \<lparr>body_url = Some u, body_code = Some c\<rparr> s)) = [r]"
proof -
  from assms(4) have c: "c \<noteq> []"
    by (auto simp: CODE_REGEX_test_def)
  from assms(5) have u: "u \<noteq> []"
    by (rule isValidUrl_nonempty)
  from assms(2,3) have "c \<in> code ` set s"
    by auto
  then have ins: "insert_link now c u s = Inl (Db_error ''23505'')"
    by (rule insert_link_present)
  have res: "createLink ap rnd now \<lparr>body_url = Some u, body_code = Some c\<rparr> s =
           (Json 409 (Error_json ''Code already exists''), s)"
    using c u assms(4,5) ins by (simp add: createLink_def truthy_def str_of_def)
  from select_by_code_unique [OF assms(1,2)] assms(3) have "select_by_code c s = [r]"
    by simp
  with res show ?thesis
    by simp
qed

lemma CODE_REGEX_test_row_b: "CODE_REGEX_test ''abc1234''"
  by (simp add: CODE_REGEX_test_def ascii_alphanumeric_def ascii_digit_def ascii_alpha_def
      ascii_upper_alpha_def ascii_lower_alpha_def)

lemma isValidUrl_mailto: "isValidUrl ap ''mailto:a@b.c''"
  by (simp add: isValidUrl_def new_URL_def url_input_def scheme_start_state_def
      authority_follows_def special_scheme_def c0_control_or_space_def ascii_tab_or_newline_def
      ascii_alphanumeric_def ascii_digit_def ascii_alpha_def ascii_lowercase_def
      ascii_upper_alpha_def ascii_lower_alpha_def)

theorem createLink_duplicate_witness:
  "store_inv [row_a, row_b] \<and> row_b \<in> set [row_a, row_b] \<and> code row_b = ''abc1234''
   \<and> CODE_REGEX_test ''abc1234'' \<and> isValidUrl no_authority ''mailto:a@b.c''
   \<and> createLink no_authority zero_draws 9
        \<lparr>body_url = Some ''mailto:a@b.c'', body_code = Some ''abc1234''\<rparr> [row_a, row_b] =
       (Json 409 (Error_json ''Code already exists''), [row_a, row_b])"
proof -
  have h: "store_inv [row_a, row_b]" "row_b \<in> set [row_a, row_b]" "code row_b = ''abc1234''"
    "CODE_REGEX_test ''abc1234''" "isValidUrl no_authority ''mailto:a@b.c''"
    by (simp_all add: store_inv_def row_a_def row_b_def CODE_REGEX_test_row_b isValidUrl_mailto)
  from createLink_duplicate [OF h, of zero_draws 9] h show ?thesis
    by simp
qed

section \<open>Deleting links\<close>

lemma delete_by_code_absent:
  "c \<notin> code ` set s \<Longrightarrow> delete_by_code c s = (0, s)"
proof -
  assume "c \<notin> code ` set s"
  then have "\<forall>r\<in>set s. code r \<noteq> c"
    by auto
  then show ?thesis
    by (simp add: delete_by_code_def filter_empty_conv filter_id_conv)
qed

lemma delete_by_code_present:
  "c \<in> code ` set s \<Longrightarrow> fst (delete_by_code c s) \<noteq> 0"
  by (auto simp: delete_by_code_def filter_empty_conv)

text \<open>
  C7: deleting a code that no row has answers 404 and leaves the table as it is.
  Deleting the code of a row \<open>r\<close> answers 204 without a body, removes \<open>r\<close> and nothing
  else, the other rows staying as they are, and fetching the code afterwards answers
  404.
\<close>

theorem deleteLink_correct:
  assumes "store_inv s"
  shows "(c \<notin> code ` set s \<longrightarrow>
            deleteLink c s = (Json 404 (Error_json ''Link not found''), s))
       \<and> (\<forall>r\<in>set s. code r = c \<longrightarrow>
            deleteLink c s = (End 204, filter (\<lambda>x. code x \<noteq> c) s)
          \<and> mset s = add_mset r (mset (snd (deleteLink c s)))
          \<and> getLink c (snd (deleteLink c s)) = Json 404 (Error_json ''Link not found''))"
proof (intro conjI impI ballI)
  assume "c \<notin> code ` set s"
  then show "deleteLink c s = (Json 404 (Error_json ''Link not found''), s)"
    by (simp add: deleteLink_def delete_by_code_absent)
next
  fix r assume r: "r \<in> set s" and c: "code r = c"
  then have "c \<in> code ` set s"
    by auto
  then have "fst (delete_by_code c s) \<noteq> 0"
    by (rule delete_by_code_present)
  then show del: "deleteLink c s = (End 204, filter (\<lambda>x. code x \<noteq> c) s)"
    by (simp add: deleteLink_def delete_by_code_def)
  from select_by_code_unique [OF assms r] c have "filter (\<lambda>x. code x = c) s = [r]"
    by (simp add: select_by_code_def)
  moreover have "mset s = mset (filter (\<lambda>x. code x = c) s) + mset (filter (\<lambda>x. code x \<noteq> c) s)"
    by (induction s) simp_all
  ultimately show "mset s = add_mset r (mset (snd (deleteLink c s)))"
    using del by simp
  have "select_by_code c (filter (\<lambda>x. code x \<noteq> c) s) = []"
    by (auto simp: select_by_code_def filter_empty_conv)
  then show "getLink c (snd (deleteLink c s)) = Json 404 (Error_json ''Link not found'')"
    using del by (simp add: getLink_def)
qed

theorem deleteLink_correct_witness:
  "store_inv [row_a, row_b] \<and> ''zzzzzz'' \<notin> code ` set [row_a, row_b]
   \<and> deleteLink ''zzzzzz'' [row_a, row_b] = (Json 404 (Error_json ''Link not found''), [row_a, row_b])
   \<and> row_a \<in> set [row_a, row_b] \<and> code row_a = ''AAAAAA''
   \<and> deleteLink ''AAAAAA'' [row_a, row_b] = (End 204, [row_b])
   \<and> getLink ''AAAAAA'' [row_b] = Json 404 (Error_json ''Link not found'')"
proof -
  have h: "store_inv [row_a, row_b]"
    by (simp add: store_inv_def row_a_def row_b_def)
  have m: "''zzzzzz'' \<notin> code ` set [row_a, row_b]" "row_a \<in> set [row_a, row_b]"
    "code row_a = ''AAAAAA''" "code row_b \<noteq> ''AAAAAA''"
    by (simp_all add: row_a_def row_b_def)
  from deleteLink_correct [OF h, of "''zzzzzz''"] deleteLink_correct [OF h, of "''AAAAAA''"] h m
  show ?thesis
    by auto
qed

section \<open>Lookups take any code\<close>

text \<open>
  C10: fetching, deleting and redirecting take any string as the code, of the
  required form or not, and look it up as it is. None of them answers 400. When no row
  has the code, each answers 404. When a row has the code, whatever the form of the
  code, fetching answers 200, deleting 204 and redirecting 302; with \<open>code\<close> the
  primary key, fetching answers with that row and redirecting goes to its
  \<open>target_url\<close>.
\<close>

theorem lookups_never_invalid_input:
  "status (getLink c s) \<noteq> 400 \<and> status (fst (deleteLink c s)) \<noteq> 400
   \<and> status (fst (redirect now c s)) \<noteq> 400
   \<and> (c \<notin> code ` set s \<longrightarrow>
        status (getLink c s) = 404 \<and> status (fst (deleteLink c s)) = 404
        \<and> status (fst (redirect now c s)) = 404)
   \<and> (c \<in> code ` set s \<longrightarrow>
        status (getLink c s) = 200 \<and> status (fst (deleteLink c s)) = 204
        \<and> status (fst (redirect now c s)) = 302)
   \<and> (\<forall>r \<in> set s. store_inv s \<and> code r = c \<longrightarrow>
        getLink c s = Json 200 (Link_stats_json r) \<and> fst (deleteLink c s) = End 204
        \<and> fst (redirect now c s) = Redirect 302 (target_url r))"
proof -
  have found: "getLink c s = Json 200 (Link_stats_json r) \<and> fst (deleteLink c s) = End 204
        \<and> fst (redirect now c s) = Redirect 302 (target_url r)"
    if "r \<in> set s" and "store_inv s" and "code r = c" for r
  proof -
    from that have "select_by_code c s = [r]"
      using select_by_code_unique by blast
    moreover from that have "fst (delete_by_code c s) \<noteq> 0"
      by (intro delete_by_code_present) auto
    then have "fst (deleteLink c s) = End 204"
      by (simp add: deleteLink_def delete_by_code_def)
    ultimately show ?thesis
      by (simp add: getLink_def redirect_def)
  qed
  show ?thesis
  proof (cases "c \<in> code ` set s")
    case True
    then have "select_by_code c s \<noteq> []" "fst (delete_by_code c s) \<noteq> 0"
      by (simp_all add: select_by_code_empty delete_by_code_present)
    then have "status (getLink c s) = 200 \<and> status (fst (deleteLink c s)) = 204
        \<and> status (fst (redirect now c s)) = 302"
      by (auto simp: getLink_def deleteLink_def redirect_def split: list.splits prod.splits)
    with True found show ?thesis
      by auto
  next
    case False
    then have "select_by_code c s = []" "delete_by_code c s = (0, s)"
      by (simp_all add: select_by_code_empty delete_by_code_absent)
    then have "status (getLink c s) = 404 \<and> status (fst (deleteLink c s)) = 404
        \<and> status (fst (redirect now c s)) = 404"
      by (simp add: getLink_def deleteLink_def redirect_def)
    with False show ?thesis
      by auto
  qed
qed

theorem lookups_never_invalid_input_witness:
  "\<not> CODE_REGEX_test ''no such code!'' \<and> ''no such code!'' \<notin> code ` set [row_a, row_c]
   \<and> status (getLink ''no such code!'' [row_a, row_c]) = 404
   \<and> status (fst (deleteLink ''no such code!'' [row_a, row_c])) = 404
   \<and> status (fst (redirect 9 ''no such code!'' [row_a, row_c])) = 404
   \<and> \<not> CODE_REGEX_test ''abc'' \<and> row_c \<in> set [row_a, row_c] \<and> store_inv [row_a, row_c]
   \<and> code row_c = ''abc''
   \<and> getLink ''abc'' [row_a, row_c] = Json 200 (Link_stats_json row_c)
   \<and> fst (deleteLink ''abc'' [row_a, row_c]) = End 204
   \<and> fst (redirect 9 ''abc'' [row_a, row_c]) = Redirect 302 ''news:alt.test''"
proof -
  have h: "''no such code!'' \<notin> code ` set [row_a, row_c]"
    by (simp add: row_a_def row_c_def)
  have n: "\<not> CODE_REGEX_test ''no such code!''" "\<not> CODE_REGEX_test ''abc''"
    by (simp_all add: CODE_REGEX_test_def)
  have f: "row_c \<in> set [row_a, row_c]" "store_inv [row_a, row_c]" "code row_c = ''abc''"
    "target_url row_c = ''news:alt.test''"
    by (simp_all add: store_inv_def row_a_def row_c_def)
  from lookups_never_invalid_input [of "''no such code!''" "[row_a, row_c]" 9]
    lookups_never_invalid_input [of "''abc''" "[row_a, row_c]" 9] h n f
  show ?thesis
    by auto
qed

section \<open>The URL validator\<close>

lemmas ascii_defs = ascii_alphanumeric_def ascii_digit_def ascii_alpha_def
  ascii_upper_alpha_def ascii_lower_alpha_def

lemma scheme_char_colon: "\<not> scheme_char (CHR '':'')"
  by (simp add: scheme_char_def ascii_defs)

lemma scheme_state_iff:
  "scheme_state buffer inp = Some (sc, rest) \<longleftrightarrow>
   (\<exists>raw. inp = raw @ CHR '':'' # rest \<and> list_all scheme_char raw
          \<and> sc = buffer @ map ascii_lowercase raw)"
proof (induction inp arbitrary: buffer)
  case Nil
  then show ?case by simp
next
  case (Cons c cs)
  show ?case
  proof (cases "scheme_char c")
    case True
    then have ne: "c \<noteq> CHR '':''"
      using scheme_char_colon by auto
    from True have "scheme_state buffer (c # cs) = scheme_state (buffer @ [ascii_lowercase c]) cs"
      by (simp add: scheme_char_def)
    also have "\<dots> = Some (sc, rest) \<longleftrightarrow>
        (\<exists>raw. cs = raw @ CHR '':'' # rest \<and> list_all scheme_char raw
              \<and> sc = (buffer @ [ascii_lowercase c]) @ map ascii_lowercase raw)"
      by (rule Cons.IH)
    also have "\<dots> \<longleftrightarrow>
        (\<exists>raw. c # cs = raw @ CHR '':'' # rest \<and> list_all scheme_char raw
              \<and> sc = buffer @ map ascii_lowercase raw)" (is "?L \<longleftrightarrow> ?R")
    proof
      assume ?L
      then obtain raw where "cs = raw @ CHR '':'' # rest" "list_all scheme_char raw"
        "sc = (buffer @ [ascii_lowercase c]) @ map ascii_lowercase raw"
        by blast
      with True have "c # cs = (c # raw) @ CHR '':'' # rest \<and> list_all scheme_char (c # raw)
          \<and> sc = buffer @ map ascii_lowercase (c # raw)"
        by simp
      then show ?R by blast
    next
      assume ?R
      then obtain raw where raw: "c # cs = raw @ CHR '':'' # rest" "list_all scheme_char raw"
        "sc = buffer @ map ascii_lowercase raw"
        by blast
      with ne obtain raw' where "raw = c # raw'"
        by (cases raw) auto
      with raw show ?L
        by auto
    qed
    finally show ?thesis .
  next
    case False
    show ?thesis
    proof (cases "c = CHR '':''")
      case True
      have "(\<exists>raw. c # cs = raw @ CHR '':'' # rest \<and> list_all scheme_char raw
              \<and> sc = buffer @ map ascii_lowercase raw) \<longleftrightarrow> (cs = rest \<and> sc = buffer)"
      proof
        assume "\<exists>raw. c # cs = raw @ CHR '':'' # rest \<and> list_all scheme_char raw
              \<and> sc = buffer @ map ascii_lowercase raw"
        then obtain raw where raw: "c # cs = raw @ CHR '':'' # rest" "list_all scheme_char raw"
          "sc = buffer @ map ascii_lowercase raw"
          by blast
        have "raw = []"
        proof (cases raw)
          case Nil
          then show ?thesis .
        next
          case (Cons a as)
          with raw False show ?thesis by simp
        qed
        with raw show "cs = rest \<and> sc = buffer" by simp
      next
        assume "cs = rest \<and> sc = buffer"
        with True show "\<exists>raw. c # cs = raw @ CHR '':'' # rest \<and> list_all scheme_char raw
              \<and> sc = buffer @ map ascii_lowercase raw"
          by (intro exI [of _ "[]"]) simp
      qed
      moreover from False True have "scheme_state buffer (c # cs) = Some (buffer, cs)"
        by (simp add: scheme_char_def)
      ultimately show ?thesis
        by auto
    next
      case ne: False
      have "\<not> (\<exists>raw. c # cs = raw @ CHR '':'' # rest \<and> list_all scheme_char raw
              \<and> sc = buffer @ map ascii_lowercase raw)"
      proof
        assume "\<exists>raw. c # cs = raw @ CHR '':'' # rest \<and> list_all scheme_char raw
              \<and> sc = buffer @ map ascii_lowercase raw"
        then obtain raw where raw: "c # cs = raw @ CHR '':'' # rest" "list_all scheme_char raw"
          by blast
        show False
        proof (cases raw)
          case Nil
          with raw ne show ?thesis by simp
        next
          case (Cons a as)
          with raw False show ?thesis by simp
        qed
      qed
      moreover from False ne have "scheme_state buffer (c # cs) = None"
        by (simp add: scheme_char_def)
      ultimately show ?thesis
        by simp
    qed
  qed
qed

lemma scheme_start_state_iff:
  "scheme_start_state inp = Some (sc, rest) \<longleftrightarrow>
   (\<exists>raw. inp = raw @ CHR '':'' # rest \<and> raw \<noteq> [] \<and> ascii_alpha (hd raw)
          \<and> list_all scheme_char raw \<and> sc = map ascii_lowercase raw)" (is "?L \<longleftrightarrow> ?R")
proof (cases inp)
  case Nil
  then show ?thesis
    by (simp add: scheme_start_state_def)
next
  case (Cons c cs)
  show ?thesis
  proof (cases "ascii_alpha c")
    case True
    then have sc: "scheme_char c"
      by (simp add: scheme_char_def ascii_alphanumeric_def)
    from True Cons have "?L \<longleftrightarrow> scheme_state [ascii_lowercase c] cs = Some (sc, rest)"
      by (simp add: scheme_start_state_def)
    also have "\<dots> \<longleftrightarrow> (\<exists>raw. cs = raw @ CHR '':'' # rest \<and> list_all scheme_char raw
          \<and> sc = [ascii_lowercase c] @ map ascii_lowercase raw)"
      by (rule scheme_state_iff)
    also have "\<dots> \<longleftrightarrow> ?R"
    proof
      assume "\<exists>raw. cs = raw @ CHR '':'' # rest \<and> list_all scheme_char raw
          \<and> sc = [ascii_lowercase c] @ map ascii_lowercase raw"
      then obtain raw where "cs = raw @ CHR '':'' # rest" "list_all scheme_char raw"
          "sc = [ascii_lowercase c] @ map ascii_lowercase raw"
        by blast
      with True sc Cons have "inp = (c # raw) @ CHR '':'' # rest \<and> c # raw \<noteq> []
          \<and> ascii_alpha (hd (c # raw)) \<and> list_all scheme_char (c # raw)
          \<and> sc = map ascii_lowercase (c # raw)"
        by simp
      then show ?R by blast
    next
      assume ?R
      then obtain raw where raw: "inp = raw @ CHR '':'' # rest" "raw \<noteq> []"
        "list_all scheme_char raw" "sc = map ascii_lowercase raw"
        by blast
      then obtain raw' where "raw = c # raw'"
        using Cons by (cases raw) auto
      with raw Cons show "\<exists>raw. cs = raw @ CHR '':'' # rest \<and> list_all scheme_char raw
          \<and> sc = [ascii_lowercase c] @ map ascii_lowercase raw"
        by auto
    qed
    finally show ?thesis .
  next
    case False
    have "\<not> ?R"
    proof
      assume ?R
      then obtain raw where raw: "inp = raw @ CHR '':'' # rest" "raw \<noteq> []" "ascii_alpha (hd raw)"
        by blast
      with Cons have "hd raw = c"
        by (cases raw) auto
      with raw False show False by simp
    qed
    with False Cons show ?thesis
      by (simp add: scheme_start_state_def)
  qed
qed

lemma isValidUrl_iff_scheme_start:
  "isValidUrl ap str \<longleftrightarrow>
   (\<exists>sc rest. scheme_start_state (url_input str) = Some (sc, rest)
      \<and> (authority_follows sc rest \<longrightarrow> \<not> isl (ap sc rest)))"
  by (auto simp: isValidUrl_def new_URL_def isl_def split: option.splits sum.splits)

lemma createLink_bad_url:
  "\<not> truthy u \<or> \<not> isValidUrl ap (str_of u) \<Longrightarrow>
   createLink ap rnd now \<lparr>body_url = u, body_code = c\<rparr> s =
     (Json 400 (Error_json ''Invalid or missing URL''), s)"
  by (auto simp: createLink_def)

text \<open>
  C8, as amended: the validator accepts a string exactly when the URL constructor
  parses it: after trimming, the string begins with a scheme (a letter, then letters,
  digits, \<^verbatim>\<open>+\<close>, \<^verbatim>\<open>-\<close>, \<^verbatim>\<open>.\<close>) and a colon, and where an authority follows (a special
  scheme, or two slashes after the colon) the runtime parses it. An authority is not
  required: with any other scheme and no two slashes the string is accepted. The empty
  string is rejected, and a create request whose URL is missing, empty or rejected is
  answered 400.
\<close>

theorem isValidUrl_scheme:
  "(isValidUrl ap str \<longleftrightarrow>
      (\<exists>raw rest. url_input str = raw @ CHR '':'' # rest \<and> raw \<noteq> [] \<and> ascii_alpha (hd raw)
         \<and> list_all scheme_char raw
         \<and> (authority_follows (map ascii_lowercase raw) rest
              \<longrightarrow> \<not> isl (ap (map ascii_lowercase raw) rest))))
   \<and> \<not> isValidUrl ap []
   \<and> (\<not> truthy u \<or> \<not> isValidUrl ap (str_of u) \<longrightarrow>
        createLink ap rnd now \<lparr>body_url = u, body_code = c\<rparr> s =
          (Json 400 (Error_json ''Invalid or missing URL''), s))"
proof (intro conjI)
  show "isValidUrl ap str \<longleftrightarrow>
      (\<exists>raw rest. url_input str = raw @ CHR '':'' # rest \<and> raw \<noteq> [] \<and> ascii_alpha (hd raw)
         \<and> list_all scheme_char raw
         \<and> (authority_follows (map ascii_lowercase raw) rest
              \<longrightarrow> \<not> isl (ap (map ascii_lowercase raw) rest)))"
    unfolding isValidUrl_iff_scheme_start scheme_start_state_iff by blast
  show "\<not> isValidUrl ap []"
    using isValidUrl_nonempty by blast
  show "\<not> truthy u \<or> \<not> isValidUrl ap (str_of u) \<longrightarrow>
        createLink ap rnd now \<lparr>body_url = u, body_code = c\<rparr> s =
          (Json 400 (Error_json ''Invalid or missing URL''), s)"
    using createLink_bad_url by blast
qed

lemma url_input_mailto: "url_input ''mailto:a@b.c'' = ''mailto:a@b.c''"
  by (simp add: url_input_def c0_control_or_space_def ascii_tab_or_newline_def)

theorem isValidUrl_scheme_witness:
  "url_input ''mailto:a@b.c'' = ''mailto'' @ CHR '':'' # ''a@b.c''
   \<and> list_all scheme_char ''mailto''
   \<and> \<not> authority_follows (map ascii_lowercase ''mailto'') ''a@b.c''
   \<and> isValidUrl no_authority ''mailto:a@b.c''
   \<and> \<not> truthy None
   \<and> createLink no_authority zero_draws 9 \<lparr>body_url = None, body_code = None\<rparr> [row_a] =
       (Json 400 (Error_json ''Invalid or missing URL''), [row_a])"
proof -
  have a: "url_input ''mailto:a@b.c'' = ''mailto'' @ CHR '':'' # ''a@b.c''"
    by (simp add: url_input_mailto)
  have b: "list_all scheme_char ''mailto''" "ascii_alpha (hd ''mailto'')" "''mailto'' \<noteq> []"
    by (simp_all add: scheme_char_def ascii_defs)
  have c: "\<not> authority_follows (map ascii_lowercase ''mailto'') ''a@b.c''"
    by (simp add: authority_follows_def special_scheme_def ascii_lowercase_def ascii_defs)
  have d: "\<not> truthy None"
    by (simp add: truthy_def)
  from a b c have "\<exists>raw rest. url_input ''mailto:a@b.c'' = raw @ CHR '':'' # rest \<and> raw \<noteq> []
         \<and> ascii_alpha (hd raw) \<and> list_all scheme_char raw
         \<and> (authority_follows (map ascii_lowercase raw) rest
              \<longrightarrow> \<not> isl (no_authority (map ascii_lowercase raw) rest))"
    by blast
  with isValidUrl_scheme [of no_authority "''mailto:a@b.c''" None zero_draws 9 None "[row_a]"] a b c d
  show ?thesis
    by simp
qed

theorem isValidUrl_mailto_counterexample:
  "isValidUrl no_authority ''mailto:a@b.c''
   \<and> new_URL no_authority ''mailto:a@b.c'' = Inr \<lparr>url_scheme = ''mailto'', url_host = None\<rparr>
   \<and> \<not> absolute_with_authority no_authority ''mailto:a@b.c''"
  by (simp add: isValidUrl_def absolute_with_authority_def new_URL_def url_input_mailto
      scheme_start_state_def authority_follows_def special_scheme_def ascii_lowercase_def
      scheme_char_def ascii_defs)

section \<open>Creating links\<close>

declare generateCode_loop.simps [simp del]

lemma length_chars: "length chars = 62"
  by (simp add: chars_def)

lemma chars_alphanumeric: "list_all ascii_alphanumeric chars"
  by (simp add: chars_def ascii_defs)

declare bit_length.simps [simp del]

text \<open>\<open>below_one\<close> is the comparison with 1 of the number's value.\<close>

lemma below_one_real:
  "below_one (Finite m e) \<longleftrightarrow> real m * 2 powr real_of_int e < 1"
proof (cases "0 \<le> e")
  case True
  then have "(1::real) \<le> 2 powr real_of_int e"
    by (simp add: ge_one_powr_ge_zero)
  then have "real m * 2 powr real_of_int e < 1 \<longleftrightarrow> m = 0"
  proof (cases "m = 0")
    case True
    then show ?thesis by simp
  next
    case False
    then have "1 \<le> real m"
      by simp
    with \<open>1 \<le> 2 powr real_of_int e\<close> have "1 * 1 \<le> real m * 2 powr real_of_int e"
      by (intro mult_mono) simp_all
    with False show ?thesis
      by simp
  qed
  with True show ?thesis
    by simp
next
  case False
  define n where "n = nat (- e)"
  with False have e: "e = - int n"
    by simp
  have p: "2 powr real_of_int e = inverse (2 ^ n)"
    unfolding e by (simp add: powr_minus powr_realpow)
  have "real m * 2 powr real_of_int e < 1 \<longleftrightarrow> real m / 2 ^ n < 1"
    unfolding p by (simp add: divide_inverse)
  also have "\<dots> \<longleftrightarrow> real m < 2 ^ n"
    by (simp add: divide_less_eq)
  also have "\<dots> \<longleftrightarrow> m < 2 ^ n"
    by simp
  finally show ?thesis
    using False by (simp add: n_def)
qed

lemma bit_length_le: "n < 2 ^ j \<Longrightarrow> bit_length n \<le> j"
proof (induction j arbitrary: n)
  case 0
  then show ?case by (simp add: bit_length.simps)
next
  case (Suc j)
  show ?case
  proof (cases "n = 0")
    case True
    then show ?thesis by (simp add: bit_length.simps)
  next
    case False
    from Suc.prems have "n div 2 < 2 ^ j"
      by simp
    from Suc.IH [OF this] False show ?thesis
      by (subst bit_length.simps) simp
  qed
qed

lemma round_half_even_bound: "2 * (round_half_even M k * 2 ^ k) \<le> 2 * M + 2 ^ k"
proof -
  define q where "q = M div 2 ^ k"
  define r where "r = M mod 2 ^ k"
  have M: "M = q * 2 ^ k + r"
    unfolding q_def r_def by (rule div_mult_mod_eq [symmetric])
  show ?thesis
    unfolding round_half_even_def Let_def q_def [symmetric] r_def [symmetric]
    by (auto simp: M algebra_simps)
qed

lemma round_half_even_nearest: "2 * M \<le> 2 * (round_half_even M k * 2 ^ k) + 2 ^ k"
proof -
  define q where "q = M div 2 ^ k"
  define r where "r = M mod 2 ^ k"
  have M: "M = q * 2 ^ k + r"
    unfolding q_def r_def by (rule div_mult_mod_eq [symmetric])
  have "r < 2 ^ k"
    by (simp add: r_def)
  then show ?thesis
    unfolding round_half_even_def Let_def q_def [symmetric] r_def [symmetric]
    by (auto simp: M algebra_simps)
qed

lemma round_binary64_zero: "round_binary64 0 e = Finite 0 e"
  by (simp add: round_binary64_def round_half_even_def bit_length.simps)

lemma product_below:
  assumes m: "m < 2 ^ 53" and n: "m < 2 ^ n"
  shows "round_half_even (m * 62) (bit_length (m * 62) - 53) * 2 ^ (bit_length (m * 62) - 53)
           < 62 * 2 ^ n"
proof -
  let ?M = "m * 62"
  let ?k = "bit_length ?M - 53"
  from m have "?M < 2 ^ 53 * 2 ^ 6"
    by simp
  then have "?M < 2 ^ 59"
    by simp
  then have "bit_length ?M \<le> 59"
    by (rule bit_length_le)
  then have "?k \<le> 6"
    by simp
  then have "(2::nat) ^ ?k \<le> 2 ^ 6"
    by (intro power_increasing) simp_all
  then have k: "(2::nat) ^ ?k \<le> 64"
    by simp
  from n have "m + 1 \<le> 2 ^ n"
    by simp
  then have "62 * (m + 1) \<le> 62 * 2 ^ n"
    by (rule mult_le_mono2)
  then have M: "?M + 62 \<le> 62 * 2 ^ n"
    by simp
  have "2 * (round_half_even ?M ?k * 2 ^ ?k) \<le> 2 * ?M + 2 ^ ?k"
    by (rule round_half_even_bound)
  with k M show ?thesis
    by linarith
qed

lemma draw_index:
  assumes "binary64 x" and "below_one x"
  shows "\<exists>k < length chars. Math_floor (multiply_length x) = Finite k 0"
proof (cases x)
  case Infinity
  with assms show ?thesis by simp
next
  case (Finite m e)
  show ?thesis
  proof (cases "m = 0")
    case True
    with Finite show ?thesis
      by (simp add: multiply_length_def round_binary64_zero length_chars)
  next
    case False
    with assms Finite have e: "e < 0" and n: "m < 2 ^ nat (- e)" and m: "m < 2 ^ 53"
      by (auto split: if_splits)
    define n where "n = nat (- e)"
    define k where "k = bit_length (m * 62) - 53"
    define M' where "M' = round_half_even (m * 62) k"
    from e have en: "e = - int n"
      by (simp add: n_def)
    from product_below [OF m] n have below: "M' * 2 ^ k < 62 * 2 ^ n"
      by (simp add: M'_def k_def n_def)
    show ?thesis
    proof (cases "n \<le> k")
      case True
      then have k: "k = (k - n) + n"
        by simp
      have eq: "M' * 2 ^ (k - n) * 2 ^ n = M' * 2 ^ k"
        by (subst (2) k) (simp add: power_add)
      from below have "M' * 2 ^ (k - n) * 2 ^ n < 62 * 2 ^ n"
        by (simp only: eq)
      then have small: "M' * 2 ^ (k - n) < 62"
        by simp
      then have "\<not> (2::nat) ^ 1024 \<le> M' * 2 ^ (k - n)"
        by simp
      moreover from True have "nat (e + int k) = k - n" "0 \<le> e + int k"
        by (simp_all add: en)
      ultimately have "multiply_length x = Finite M' (e + int k)"
        "Math_floor (Finite M' (e + int k)) = Finite (M' * 2 ^ (k - n)) 0"
        by (simp_all add: Finite multiply_length_def round_binary64_def length_chars Let_def
            k_def [symmetric] M'_def [symmetric])
      with small show ?thesis
        by (simp add: length_chars)
    next
      case False
      then have n: "n = (n - k) + k"
        by simp
      have eq: "62 * 2 ^ (n - k) * (2::nat) ^ k = 62 * 2 ^ n"
        by (subst (2) n) (simp add: power_add)
      from below have "M' * 2 ^ k < 62 * 2 ^ (n - k) * 2 ^ k"
        by (simp only: eq)
      then have "M' < 62 * 2 ^ (n - k)"
        by simp
      then have small: "M' div 2 ^ (n - k) < 62"
        by (simp add: less_mult_imp_div_less mult.commute)
      from False have neg: "\<not> 0 \<le> e + int k" "nat (- (e + int k)) = n - k"
        by (simp_all add: en)
      then have "multiply_length x = Finite M' (e + int k)"
        "Math_floor (Finite M' (e + int k)) = Finite (M' div 2 ^ (n - k)) 0"
        by (simp_all add: Finite multiply_length_def round_binary64_def length_chars Let_def
            k_def [symmetric] M'_def [symmetric])
      with small show ?thesis
        by (simp add: length_chars)
    qed
  qed
qed

lemma chars_at_draw:
  assumes "binary64 x" and "below_one x"
  shows "\<exists>c \<in> set chars. chars_at (Math_floor (multiply_length x)) = [c]"
proof -
  from draw_index [OF assms] obtain k where k: "k < length chars"
    "Math_floor (multiply_length x) = Finite k 0"
    by blast
  then have "chars_at (Math_floor (multiply_length x)) = [chars ! k]"
    by (simp add: chars_at_def)
  with k(1) show ?thesis
    by (metis nth_mem)
qed

lemma generateCode_loop_correct:
  assumes "\<forall>j<len. binary64 (rnd j) \<and> below_one (rnd j)"
  shows "length (generateCode_loop rnd len i out) = length out + (len - i)
       \<and> set (generateCode_loop rnd len i out) \<subseteq> set out \<union> set chars"
  using assms
proof (induction rnd len i out rule: generateCode_loop.induct)
  case (1 rnd len i out)
  show ?case
  proof (cases "i < len")
    case True
    with "1.prems" have "binary64 (rnd i)" "below_one (rnd i)"
      by simp_all
    then obtain x where x: "x \<in> set chars"
      "chars_at (Math_floor (multiply_length (rnd i))) = [x]"
      using chars_at_draw by blast
    from "1.IH" [OF True "1.prems"] x True show ?thesis
      by (subst (1 2) generateCode_loop.simps) auto
  next
    case False
    then show ?thesis
      by (subst (1 2) generateCode_loop.simps) simp
  qed
qed

lemma generateCode_correct:
  assumes "\<forall>j<len. binary64 (rnd j) \<and> below_one (rnd j)"
  shows "length (generateCode rnd len) = len" and "set (generateCode rnd len) \<subseteq> set chars"
  using generateCode_loop_correct [OF assms, of 0 "[]"] by (simp_all add: generateCode_def)

lemma generateCode_6_regex:
  assumes "\<forall>j<6. binary64 (rnd j) \<and> below_one (rnd j)"
  shows "CODE_REGEX_test (generateCode rnd 6)"
proof -
  from generateCode_correct [OF assms] have "length (generateCode rnd 6) = 6"
    and sub: "set (generateCode rnd 6) \<subseteq> set chars"
    by simp_all
  moreover from sub chars_alphanumeric have "list_all ascii_alphanumeric (generateCode rnd 6)"
    by (auto simp: list_all_iff)
  ultimately show ?thesis
    by (simp add: CODE_REGEX_test_def)
qed

lemma createLink_generated_step:
  assumes "isValidUrl ap u" and "\<not> truthy c0"
  shows "createLink ap rnd now \<lparr>body_url = Some u, body_code = c0\<rparr> s =
           (case insert_link now (generateCode rnd 6) u s of
              Inr (row, s') \<Rightarrow> (Json 201 (Link_json (summary row)), s')
            | Inl err \<Rightarrow> (Json 409 (Error_json ''Code already exists''), s))"
proof -
  from assms(1) have "u \<noteq> []"
    by (rule isValidUrl_nonempty)
  with assms show ?thesis
    by (auto simp: createLink_def truthy_def str_of_def insert_link_def Let_def
        split: sum.splits)
qed

text \<open>
  C6, as amended: for a URL that the validator accepts and a code that is omitted (or
  empty), with every draw of the random source a binary64 in \<open>[0, 1)\<close> and each
  product with the length of the alphabet rounded as binary64 arithmetic rounds it, the
  generated code has 6 characters, all of the 62-character alphabet, and so is of the
  required form. If no
  row has this code, the request is answered 201 with the new record, whose
  \<open>total_clicks\<close> is 0 and whose \<open>last_clicked\<close> is null, and the row is added to the
  table. If a row has it already, the request is answered 409 and the table is as
  before.
\<close>

theorem createLink_generated:
  assumes "isValidUrl ap u" and "\<not> truthy c0" and "\<forall>j<6. binary64 (rnd j) \<and> below_one (rnd j)"
  shows "length (generateCode rnd 6) = 6 \<and> set (generateCode rnd 6) \<subseteq> set chars
       \<and> length chars = 62 \<and> CODE_REGEX_test (generateCode rnd 6)
       \<and> createLink ap rnd now \<lparr>body_url = Some u, body_code = c0\<rparr> s =
           (if generateCode rnd 6 \<in> code ` set s
            then (Json 409 (Error_json ''Code already exists''), s)
            else (Json 201 (Link_json \<lparr>s_code = generateCode rnd 6, s_target_url = u,
                                       s_total_clicks = 0, s_last_clicked = None\<rparr>),
                  s @ [\<lparr>code = generateCode rnd 6, target_url = u, total_clicks = 0,
                         last_clicked = None, created_at = now\<rparr>]))"
proof -
  have "createLink ap rnd now \<lparr>body_url = Some u, body_code = c0\<rparr> s =
           (if generateCode rnd 6 \<in> code ` set s
            then (Json 409 (Error_json ''Code already exists''), s)
            else (Json 201 (Link_json \<lparr>s_code = generateCode rnd 6, s_target_url = u,
                                       s_total_clicks = 0, s_last_clicked = None\<rparr>),
                  s @ [\<lparr>code = generateCode rnd 6, target_url = u, total_clicks = 0,
                         last_clicked = None, created_at = now\<rparr>]))"
  proof (cases "generateCode rnd 6 \<in> code ` set s")
    case True
    then show ?thesis
      by (simp add: createLink_generated_step [OF assms(1,2)] insert_link_present)
  next
    case False
    then show ?thesis
      by (simp add: createLink_generated_step [OF assms(1,2)] insert_link_absent summary_def)
  qed
  with generateCode_correct [OF assms(3)] generateCode_6_regex [OF assms(3)] length_chars
  show ?thesis
    by simp
qed

lemma draw_zero: "chars_at (Math_floor (multiply_length (Finite 0 0))) = ''A''"
  by (simp add: multiply_length_def round_binary64_zero chars_at_def chars_def)

lemma generateCode_zero_draws: "generateCode zero_draws 6 = ''AAAAAA''"
  by (simp add: generateCode_def generateCode_loop.simps zero_draws_def draw_zero)

text \<open>The draw \<^verbatim>\<open>1162219258676257 * 2^-52\<close>: its exact product with 62 is
  \<^verbatim>\<open>(2^56 - 2) * 2^-52\<close>, of 56 digits; three are rounded away, upwards, and the
  product is 16.\<close>

lemma bit_length_q: "bit_length 72057594037927934 = 56"
  by (simp add: bit_length.simps)

lemma round_half_even_q: "round_half_even 72057594037927934 3 = 9007199254740992"
  by (simp add: round_half_even_def)

lemma multiply_length_q:
  "multiply_length (Finite 1162219258676257 (- 52)) = Finite 9007199254740992 (- 49)"
  by (simp add: multiply_length_def round_binary64_def chars_def bit_length_q round_half_even_q)

lemma draw_q: "chars_at (Math_floor (multiply_length (Finite 1162219258676257 (- 52)))) = ''Q''"
  by (simp add: multiply_length_q chars_at_def chars_def)

lemma generateCode_q_draws: "generateCode q_draws 6 = ''QQQQQQ''"
  by (simp add: generateCode_def generateCode_loop.simps q_draws_def draw_q)

theorem createLink_generated_witness:
  "isValidUrl no_authority ''mailto:a@b.c'' \<and> \<not> truthy None
   \<and> binary64 (q_draws 0) \<and> below_one (q_draws 0)
   \<and> generateCode q_draws 6 = ''QQQQQQ''
   \<and> createLink no_authority q_draws 9 \<lparr>body_url = Some ''mailto:a@b.c'', body_code = None\<rparr>
        [row_b] =
       (Json 201 (Link_json \<lparr>s_code = ''QQQQQQ'', s_target_url = ''mailto:a@b.c'',
                              s_total_clicks = 0, s_last_clicked = None\<rparr>),
        [row_b, \<lparr>code = ''QQQQQQ'', target_url = ''mailto:a@b.c'', total_clicks = 0,
                   last_clicked = None, created_at = 9\<rparr>])
   \<and> createLink no_authority q_draws 9 \<lparr>body_url = Some ''mailto:a@b.c'', body_code = None\<rparr>
        [row_q] =
       (Json 409 (Error_json ''Code already exists''), [row_q])"
proof -
  have h: "isValidUrl no_authority ''mailto:a@b.c''" "\<not> truthy None"
    "\<forall>j<6. binary64 (q_draws j) \<and> below_one (q_draws j)"
    by (simp_all add: isValidUrl_mailto truthy_def q_draws_def)
  have d: "binary64 (q_draws 0)" "below_one (q_draws 0)"
    by (simp_all add: q_draws_def)
  have c: "code row_b \<noteq> ''QQQQQQ''" "code row_q = ''QQQQQQ''"
    by (simp_all add: row_b_def row_q_def)
  from createLink_generated [OF h, of 9 "[row_b]"] createLink_generated [OF h, of 9 "[row_q]"]
    h(1,2) d c
  show ?thesis
    by (simp add: generateCode_q_draws)
qed

theorem createLink_generated_collision_counterexample:
  "isValidUrl no_authority ''mailto:a@b.c''
   \<and> createLink no_authority zero_draws 9 \<lparr>body_url = Some ''mailto:a@b.c'', body_code = None\<rparr>
        [row_a] =
       (Json 409 (Error_json ''Code already exists''), [row_a])"
  by (simp add: createLink_generated_step isValidUrl_mailto truthy_def generateCode_zero_draws
      insert_link_def row_a_def)




section \<open>Listing links\<close>

lemma order_by_created_at_desc_mset: "mset (order_by_created_at_desc rows) = mset rows"
  by (simp add: order_by_created_at_desc_def)

lemma order_by_created_at_desc_sorted:
  "sorted_wrt (\<lambda>a b. created_at b \<le> created_at a) (order_by_created_at_desc rows)"
proof -
  have "sorted (map created_at (sort_key created_at rows))"
    by (rule sorted_sort_key)
  then have "sorted_wrt (\<lambda>a b. created_at a \<le> created_at b) (sort_key created_at rows)"
    by (simp add: sorted_map)
  then show ?thesis
    by (simp add: order_by_created_at_desc_def sorted_wrt_rev)
qed

lemma listing_order_by:
  "listing P s (map summary (order_by_created_at_desc (filter P s)))"
  unfolding listing_def
  using order_by_created_at_desc_mset order_by_created_at_desc_sorted by blast

lemma listing_cong:
  "(\<And>r. P r = Q r) \<Longrightarrow> listing P s out = listing Q s out"
  by (simp add: listing_def)

lemma like_literal:
  assumes "list_all (\<lambda>c. \<not> like_special c) q"
  shows "like (q @ ps) str \<longleftrightarrow> (\<exists>t. str = q @ t \<and> like ps t)"
  using assms
proof (induction q arbitrary: str)
  case Nil
  then show ?case by simp
next
  case (Cons c q)
  then have c: "c \<noteq> CHR ''%''" "c \<noteq> CHR ''_''" "c \<noteq> CHR 0x5C"
    and q: "list_all (\<lambda>c. \<not> like_special c) q"
    by (simp_all add: like_special_def)
  show ?case
  proof (cases str)
    case Nil
    with c show ?thesis by simp
  next
    case (Cons x t)
    with c Cons.IH [OF q, of t] show ?thesis
      by auto
  qed
qed

lemma like_percent: "like ''%'' str"
proof -
  have "[] \<in> set (suffixes str)"
    by (simp add: in_set_suffixes)
  then show ?thesis
    by (auto simp: list_ex_iff)
qed

lemma like_contains:
  assumes "list_all (\<lambda>c. \<not> like_special c) q"
  shows "like (''%'' @ q @ ''%'') str \<longleftrightarrow> sublist q str"
proof -
  have "like (''%'' @ q @ ''%'') str \<longleftrightarrow> (\<exists>t \<in> set (suffixes str). like (q @ ''%'') t)"
    by (simp add: list_ex_iff)
  also have "\<dots> \<longleftrightarrow> (\<exists>t. suffix t str \<and> (\<exists>u. t = q @ u \<and> like ''%'' u))"
    unfolding like_literal [OF assms] by (auto simp: in_set_suffixes)
  also have "\<dots> \<longleftrightarrow> (\<exists>t. suffix t str \<and> (\<exists>u. t = q @ u))"
    using like_percent by blast
  also have "\<dots> \<longleftrightarrow> sublist q str"
    by (auto simp: sublist_def suffix_def)
  finally show ?thesis .
qed

lemma like_special_lowercase: "like_special (ascii_lowercase c) = like_special c"
proof (cases "ascii_upper_alpha c")
  case True
  then have u: "65 \<le> (of_char c :: nat)" "(of_char c :: nat) \<le> 90"
    by (simp_all add: ascii_upper_alpha_def)
  then have "(of_char (ascii_lowercase c) :: nat) = of_char c + 32"
    using True by (simp add: ascii_lowercase_def)
  with u have "(of_char (ascii_lowercase c) :: nat) \<notin> {37, 95, 92}"
    "(of_char c :: nat) \<notin> {37, 95, 92}"
    by auto
  then have "\<not> like_special (ascii_lowercase c)" "\<not> like_special c"
    by (auto simp: like_special_def)
  then show ?thesis by simp
next
  case False
  then show ?thesis
    by (simp add: ascii_lowercase_def)
qed

lemma ilike_contains:
  assumes "list_all (\<lambda>c. \<not> like_special c) q"
  shows "ilike str (''%'' @ q @ ''%'') \<longleftrightarrow> contains_ci q str"
proof -
  have lit: "list_all (\<lambda>c. \<not> like_special c) (map ascii_lowercase q)"
    using assms by (simp add: list_all_iff like_special_lowercase)
  have pc: "ascii_lowercase (CHR ''%'') = CHR ''%''"
    by (simp add: ascii_lowercase_def ascii_upper_alpha_def)
  have "ilike str (''%'' @ q @ ''%'') \<longleftrightarrow>
        like (''%'' @ map ascii_lowercase q @ ''%'') (map ascii_lowercase str)"
    by (simp add: ilike_def pc)
  also have "\<dots> \<longleftrightarrow> sublist (map ascii_lowercase q) (map ascii_lowercase str)"
    by (rule like_contains [OF lit])
  finally show ?thesis
    by (simp add: contains_ci_def)
qed


text \<open>
  C5, as amended: \<^verbatim>\<open>GET /api/links\<close> answers 200 with all rows, the newest first,
  whatever the query of the request: the handler reads no filter. The filter is that of
  the dashboard, \<^verbatim>\<open>GET /\<close>: for a non-empty \<open>q\<close> without the characters that \<^verbatim>\<open>LIKE\<close>
  treats specially (\<^verbatim>\<open>%\<close>, \<^verbatim>\<open>_\<close> and the backslash) it shows exactly the rows whose
  \<open>code\<close> or \<open>target_url\<close> contains \<open>q\<close> as a substring, case disregarded, the newest
  first; without \<open>q\<close>, or with the empty one, it shows all rows in that order.
\<close>

theorem list_links:
  "(\<exists>rows. listLinks query s = Json 200 (Links_json rows) \<and> listing (\<lambda>r. True) s rows)
   \<and> (q \<noteq> [] \<and> list_all (\<lambda>c. \<not> like_special c) q \<longrightarrow>
        (\<exists>rows. dashboard baseUrl (Some q) s = Render_dashboard rows q baseUrl
           \<and> listing (\<lambda>r. contains_ci q (code r) \<or> contains_ci q (target_url r)) s rows))
   \<and> (query = None \<or> query = Some [] \<longrightarrow>
        (\<exists>rows. dashboard baseUrl query s = Render_dashboard rows [] baseUrl
           \<and> listing (\<lambda>r. True) s rows))"
proof (intro conjI impI)
  have all: "listing (\<lambda>r. True) s (map summary (order_by_created_at_desc s))"
    using listing_order_by [of "\<lambda>r. True" s] by simp
  then show "\<exists>rows. listLinks query s = Json 200 (Links_json rows) \<and> listing (\<lambda>r. True) s rows"
    by (simp add: listLinks_def)
  show "\<exists>rows. dashboard baseUrl query s = Render_dashboard rows [] baseUrl
           \<and> listing (\<lambda>r. True) s rows" if "query = None \<or> query = Some []"
    using that all by (auto simp: dashboard_def)
  show "\<exists>rows. dashboard baseUrl (Some q) s = Render_dashboard rows q baseUrl
           \<and> listing (\<lambda>r. contains_ci q (code r) \<or> contains_ci q (target_url r)) s rows"
    if "q \<noteq> [] \<and> list_all (\<lambda>c. \<not> like_special c) q"
  proof -
    from that have q: "q \<noteq> []" and lit: "list_all (\<lambda>c. \<not> like_special c) q"
      by simp_all
    let ?P = "\<lambda>r. contains_ci q (code r) \<or> contains_ci q (target_url r)"
    have "dashboard baseUrl (Some q) s =
        Render_dashboard (map summary (order_by_created_at_desc
          (filter (\<lambda>r. ilike (code r) (''%'' @ q @ ''%'') \<or> ilike (target_url r) (''%'' @ q @ ''%''))
             s))) q baseUrl"
      using q by (simp add: dashboard_def Let_def)
    then have "dashboard baseUrl (Some q) s =
        Render_dashboard (map summary (order_by_created_at_desc (filter ?P s))) q baseUrl"
      by (simp only: ilike_contains [OF lit])
    with listing_order_by [of ?P s] show ?thesis
      by blast
  qed
qed

lemma dashboard_example:
  "dashboard ''b'' (Some ''COMP'') [row_a, row_b] = Render_dashboard [summary row_b] ''COMP'' ''b''"
  by code_simp

lemma listLinks_example:
  "listLinks (Some ''COMP'') [row_a, row_b] = Json 200 (Links_json [summary row_b, summary row_a])"
  by code_simp

theorem list_links_witness:
  "''COMP'' \<noteq> [] \<and> list_all (\<lambda>c. \<not> like_special c) ''COMP''
   \<and> dashboard ''b'' (Some ''COMP'') [row_a, row_b] = Render_dashboard [summary row_b] ''COMP'' ''b''
   \<and> listing (\<lambda>r. contains_ci ''COMP'' (code r) \<or> contains_ci ''COMP'' (target_url r))
        [row_a, row_b] [summary row_b]
   \<and> listLinks (Some ''COMP'') [row_a, row_b] = Json 200 (Links_json [summary row_b, summary row_a])
   \<and> listing (\<lambda>r. True) [row_a, row_b] [summary row_b, summary row_a]
   \<and> dashboard ''b'' None [row_a, row_b] =
       Render_dashboard [summary row_b, summary row_a] [] ''b''"
proof -
  have h: "''COMP'' \<noteq> [] \<and> list_all (\<lambda>c. \<not> like_special c) ''COMP''"
    by (simp add: like_special_def)
  have n: "dashboard ''b'' None [row_a, row_b] =
       Render_dashboard [summary row_b, summary row_a] [] ''b''"
    by code_simp
  from list_links [of "Some ''COMP''" "[row_a, row_b]" "''COMP''" "''b''"]
    list_links [of None "[row_a, row_b]" "''COMP''" "''b''"] h n
  show ?thesis
    by (simp add: dashboard_example listLinks_example)
qed

theorem listLinks_filter_counterexample:
  "listLinks (Some ''zzz'') [row_a] = Json 200 (Links_json [summary row_a])
   \<and> \<not> contains_ci ''zzz'' (code row_a) \<and> \<not> contains_ci ''zzz'' (target_url row_a)
   \<and> dashboard ''b'' (Some ''b_c'') [row_a] = Render_dashboard [summary row_a] ''b_c'' ''b''
   \<and> \<not> contains_ci ''b_c'' (code row_a) \<and> \<not> contains_ci ''b_c'' (target_url row_a)"
  by code_simp

section \<open>Rows over a run of requests\<close>

lemma createLink_store:
  "snd (createLink ap rnd now body s) = s
   \<or> (\<exists>row. snd (createLink ap rnd now body s) = s @ [row] \<and> code row \<notin> code ` set s)"
  by (auto simp: createLink_def insert_link_def Let_def list_ex_iff split: sum.splits)

lemma createLink_inv:
  assumes "store_inv s"
  shows "store_inv (snd (createLink ap rnd now body s))"
  using createLink_store [of ap rnd now body s] assms
  by (auto simp: store_inv_def)

lemma createLink_keeps:
  assumes "r \<in> set s"
  shows "r \<in> set (snd (createLink ap rnd now body s))"
  using createLink_store [of ap rnd now body s] assms
  by auto

lemma deleteLink_store: "snd (deleteLink c s) = filter (\<lambda>x. code x \<noteq> c) s"
  by (simp add: deleteLink_def delete_by_code_def)

lemma deleteLink_inv:
  assumes "store_inv s"
  shows "store_inv (snd (deleteLink c s))"
  using assms by (simp add: deleteLink_store store_inv_def distinct_map_filter)

lemma redirect_store:
  "snd (redirect now c s) = (if c \<in> code ` set s then update_click now c s else s)"
proof (cases "c \<in> code ` set s")
  case True
  then have "select_by_code c s \<noteq> []"
    by (simp add: select_by_code_empty)
  then show ?thesis
    using True by (auto simp: redirect_def split: list.splits)
next
  case False
  then have "select_by_code c s = []"
    by (simp add: select_by_code_empty)
  then show ?thesis
    using False by (simp add: redirect_def)
qed


lemma update_click_keeps:
  "r \<in> set s \<Longrightarrow> code r \<noteq> c \<Longrightarrow> r \<in> set (update_click now c s)"
  by (force simp: update_click_def)

lemma handle_inv:
  assumes "store_inv s"
  shows "store_inv (snd (handle ap baseUrl rnd now req s))"
proof (cases req)
  case (POST_api_links body)
  with assms show ?thesis
    by (simp add: createLink_inv)
next
  case (DELETE_api_link c)
  with assms show ?thesis
    by (simp add: deleteLink_inv)
next
  case (GET_code c)
  with assms show ?thesis
    by (simp add: redirect_store store_inv_def update_click_codes)
qed (use assms in simp_all)

lemma handle_row:
  assumes "r \<in> set s" and "req \<noteq> DELETE_api_link (code r)"
  shows "\<exists>r' \<in> set (snd (handle ap baseUrl rnd now req s)).
           code r' = code r \<and> target_url r' = target_url r \<and> created_at r' = created_at r
           \<and> total_clicks r' = total_clicks r + (if req = GET_code (code r) then 1 else 0)"
proof (cases req)
  case (POST_api_links body)
  with createLink_keeps [OF assms(1)] show ?thesis
    by auto
next
  case (DELETE_api_link c)
  with assms have "r \<in> set (snd (deleteLink c s))"
    by (auto simp: deleteLink_store)
  with DELETE_api_link show ?thesis
    by auto
next
  case (GET_code c)
  show ?thesis
  proof (cases "c = code r")
    case True
    let ?r' = "r\<lparr>total_clicks := total_clicks r + 1, last_clicked := Some now\<rparr>"
    from assms(1) True have "c \<in> code ` set s"
      by auto
    moreover from assms(1) True have "?r' \<in> set (update_click now c s)"
      by (simp add: update_click_mem)
    ultimately have "?r' \<in> set (snd (handle ap baseUrl rnd now req s))"
      using GET_code by (simp add: redirect_store)
    moreover have "code ?r' = code r \<and> target_url ?r' = target_url r
        \<and> created_at ?r' = created_at r \<and> total_clicks ?r' = total_clicks r + 1"
      by simp
    ultimately show ?thesis
      using GET_code True by (intro bexI [of _ ?r']) simp_all
  next
    case False
    with assms(1) have "r \<in> set (update_click now c s)"
      by (simp add: update_click_keeps)
    with assms(1) have "r \<in> set (snd (handle ap baseUrl rnd now req s))"
      using GET_code by (simp add: redirect_store)
    with GET_code False show ?thesis
      by auto
  qed
qed (use assms in auto)

text \<open>
  C9: take a table in which \<open>code\<close> is the key, one of its rows \<open>r\<close>, and any list of
  requests (pages, create, list, fetch, delete, redirect) none of which deletes \<open>r\<close>'s
  code. After the run the table still holds a row with that code, with \<open>r\<close>'s
  \<open>target_url\<close> and \<open>created_at\<close>; its \<open>total_clicks\<close> is \<open>r\<close>'s plus the number of
  redirects to the code in the list. So the counter never goes down, only redirects to
  the row's code change it, and the target is never changed.
\<close>

theorem run_row_invariant:
  assumes "store_inv s" and "r \<in> set s" and "\<not> deletes (code r) reqs"
  shows "store_inv (run ap baseUrl reqs s)
       \<and> (\<exists>r' \<in> set (run ap baseUrl reqs s).
            code r' = code r \<and> target_url r' = target_url r \<and> created_at r' = created_at r
            \<and> total_clicks r' = total_clicks r + int (clicks_to (code r) reqs))"
  using assms
proof (induction reqs arbitrary: s r)
  case Nil
  then show ?case
    by (auto simp: clicks_to_def)
next
  case (Cons x reqs)
  obtain rnd now req where x: "x = (rnd, now, req)"
    by (cases x) auto
  let ?s1 = "snd (handle ap baseUrl rnd now req s)"
  from Cons.prems(3) x have nd: "req \<noteq> DELETE_api_link (code r)" and rest: "\<not> deletes (code r) reqs"
    by (auto simp: deletes_def)
  from Cons.prems(1) have inv1: "store_inv ?s1"
    by (rule handle_inv)
  from handle_row [OF Cons.prems(2) nd] obtain r1 where r1: "r1 \<in> set ?s1"
    "code r1 = code r" "target_url r1 = target_url r" "created_at r1 = created_at r"
    "total_clicks r1 = total_clicks r + (if req = GET_code (code r) then 1 else 0)"
    by blast
  from rest r1(2) have "\<not> deletes (code r1) reqs"
    by simp
  from Cons.IH [OF inv1 r1(1) this] obtain r' where r': "store_inv (run ap baseUrl reqs ?s1)"
    "r' \<in> set (run ap baseUrl reqs ?s1)" "code r' = code r1" "target_url r' = target_url r1"
    "created_at r' = created_at r1"
    "total_clicks r' = total_clicks r1 + int (clicks_to (code r1) reqs)"
    by blast
  have "clicks_to (code r) (x # reqs) = (if req = GET_code (code r) then 1 else 0) + clicks_to (code r) reqs"
    by (simp add: clicks_to_def x)
  with r' r1 x show ?case
    by (intro conjI bexI [of _ r']) simp_all
qed

theorem run_row_invariant_witness:
  "store_inv [row_a, row_b] \<and> row_b \<in> set [row_a, row_b]
   \<and> \<not> deletes (code row_b) example_requests
   \<and> clicks_to (code row_b) example_requests = 2
   \<and> run no_authority ''b'' example_requests [row_a, row_b] =
       [row_b\<lparr>total_clicks := 2, last_clicked := Some 14\<rparr>]
   \<and> store_inv (run no_authority ''b'' example_requests [row_a, row_b])
   \<and> (\<exists>r' \<in> set (run no_authority ''b'' example_requests [row_a, row_b]).
        code r' = code row_b \<and> target_url r' = target_url row_b
        \<and> created_at r' = created_at row_b \<and> total_clicks r' = total_clicks row_b + 2)"
proof -
  have h: "store_inv [row_a, row_b]" "row_b \<in> set [row_a, row_b]"
    "\<not> deletes (code row_b) example_requests"
    by (simp_all add: store_inv_def row_a_def row_b_def deletes_def example_requests_def)
  have e: "clicks_to (code row_b) example_requests = 2"
    by (simp add: clicks_to_def row_b_def example_requests_def)
  have r: "run no_authority ''b'' example_requests [row_a, row_b] =
       [row_b\<lparr>total_clicks := 2, last_clicked := Some 14\<rparr>]"
    by code_simp
  from run_row_invariant [OF h, of no_authority "''b''"]
  have c1: "store_inv (run no_authority ''b'' example_requests [row_a, row_b])"
    and c2: "\<exists>r' \<in> set (run no_authority ''b'' example_requests [row_a, row_b]).
        code r' = code row_b \<and> target_url r' = target_url row_b
        \<and> created_at r' = created_at row_b \<and> total_clicks r' = total_clicks row_b + 2"
    by (simp_all only: e of_nat_numeral)
  show ?thesis
    by (intro conjI h e r c1 c2)
qed

end
